theory Spec2Isabelle
  imports Main
begin

section \<open>The feature cache of the expression parser\<close>

text \<open>
  \<^verbatim>\<open>src/utils/ExpressionParser.js\<close> keeps two static fields, \<^verbatim>\<open>store\<close> (an object used as a
  dictionary from key strings to a feature or \<^verbatim>\<open>null\<close>) and \<^verbatim>\<open>requests\<close> (a set of key
  strings). Everything else the code touches is outside the class: the calls it makes to
  \<^verbatim>\<open>editIface.getFeatures\<close>, the promises it creates, and \<^verbatim>\<open>console.warn\<close>. The model
  keeps them in one record so that every effect of the code is a field of the state.

  A feature is a value of the type variable \<open>'f\<close>; \<^verbatim>\<open>null\<close> is \<open>None\<close>.
\<close>

subsection \<open>Values and their conversion to strings\<close>

text \<open>
  The dataset, the attribute name and the attribute value given to \<^verbatim>\<open>get\<close> are JavaScript
  values of any kind: the code never tests their type, and \<^verbatim>\<open>+\<close> with the string \<^verbatim>\<open>":"\<close>
  converts each of them to a string. \<open>jsarg\<close> has strings, integral numbers (of magnitude
  below \<open>10\<^sup>2\<^sup>1\<close>, which JavaScript prints in plain decimal), booleans, \<^verbatim>\<open>null\<close> and
  \<^verbatim>\<open>undefined\<close>; \<open>Other s\<close> stands for a value of any other kind (a fraction, an array, an
  object) that JavaScript converts to the string \<open>s\<close>. \<open>to_string\<close> is that conversion.
  (A symbol, which \<^verbatim>\<open>+\<close> refuses to convert, is not a value of the type.)
\<close>

datatype jsarg =
    Str string
  | Num int
  | Boolean bool
  | NullArg
  | Undefined
  | Other string

fun decimal :: "nat \<Rightarrow> string" where
  "decimal n =
    (let last_digit = ''0123456789'' ! (n mod 10)
     in if 10 \<le> n then decimal (n div 10) @ [last_digit] else [last_digit])"

declare decimal.simps [simp del]

fun to_string :: "jsarg \<Rightarrow> string" where
  "to_string (Str s) = s"
| "to_string (Num i) = (if i < 0 then ''-'' @ decimal (nat (- i)) else decimal (nat i))"
| "to_string (Boolean b) = (if b then ''true'' else ''false'')"
| "to_string NullArg = ''null''"
| "to_string Undefined = ''undefined''"
| "to_string (Other s) = s"

subsection \<open>The state\<close>

text \<open>
  A call of \<^verbatim>\<open>editIface.getFeatures(dataset, mapCrs, callback, null, [[attr, '=', value]])\<close>
  is logged with the values it is given.
\<close>

type_synonym promise = nat

record fetch_call =
  fc_dataset :: jsarg
  fc_crs :: string
  fc_attr :: jsarg
  fc_value :: jsarg

record 'f world =
  store :: "string \<rightharpoonup> 'f option"
  requests :: "string set"
  fetches :: "fetch_call list"
  accepted :: "promise set"
  warnings :: "string list"

text \<open>
  \<open>fetches\<close> is the log of the calls to \<^verbatim>\<open>editIface.getFeatures\<close>, oldest first. Each call
  is made inside the executor of one new promise, so the position of a call in the log
  also names that promise. \<open>accepted\<close> holds the promises whose \<^verbatim>\<open>accept()\<close> has run.
\<close>

definition init_world :: "'f world" where
  "init_world = \<lparr>store = Map.empty, requests = {}, fetches = [], accepted = {}, warnings = []\<rparr>"

text \<open>\<^verbatim>\<open>const key = dataset + ":" + attr + ":" + value;\<close>\<close>

definition cache_key :: "jsarg \<Rightarrow> jsarg \<Rightarrow> jsarg \<Rightarrow> string" where
  "cache_key dataset attr val = to_string dataset @ '':'' @ to_string attr @ '':'' @ to_string val"

definition call_key :: "fetch_call \<Rightarrow> string" where
  "call_key c = cache_key (fc_dataset c) (fc_attr c) (fc_value c)"

text \<open>
  \<^verbatim>\<open>ExpressionFeatureCache.get\<close>. The three branches are the source's: the key is in the
  store; the key is not in \<^verbatim>\<open>requests\<close> (add it, push a promise whose executor calls
  \<^verbatim>\<open>getFeatures\<close> at once); otherwise fall through. The last two return \<^verbatim>\<open>null\<close>.
  \<^verbatim>\<open>key in this.store\<close> also sees the properties every object inherits, but none of their
  names contains a colon and every key contains two, so the test is a lookup in the
  dictionary. The callback passed to \<^verbatim>\<open>getFeatures\<close> runs later, as an event of its own
  (\<open>on_result\<close> below).
\<close>

definition get ::
  "jsarg \<Rightarrow> string \<Rightarrow> jsarg \<Rightarrow> jsarg \<Rightarrow> promise list \<Rightarrow> 'f world
    \<Rightarrow> 'f option \<times> promise list \<times> 'f world" where
  "get dataset mapCrs attr val promises w =
    (let key = cache_key dataset attr val in
     case store w key of
       Some entry \<Rightarrow> (entry, promises, w)
     | None \<Rightarrow>
        if key \<notin> requests w then
          (None,
           promises @ [length (fetches w)],
           w\<lparr>requests := insert key (requests w),
             fetches := fetches w @
               [\<lparr>fc_dataset = dataset, fc_crs = mapCrs, fc_attr = attr, fc_value = val\<rparr>]\<rparr>)
        else (None, promises, w))"

text \<open>
  The value handed to the callback of \<^verbatim>\<open>getFeatures\<close>: \<^verbatim>\<open>null\<close>/\<^verbatim>\<open>undefined\<close>, or an object
  whose \<^verbatim>\<open>features\<close> is missing or an array. \<^verbatim>\<open>(result?.features || [])\<close> is
  \<open>features_or_empty\<close>.
\<close>

datatype 'f fetch_result = NoResult | Response "'f list option"

fun features_or_empty :: "'f fetch_result \<Rightarrow> 'f list" where
  "features_or_empty NoResult = []"
| "features_or_empty (Response None) = []"
| "features_or_empty (Response (Some fs)) = fs"

text \<open>
  The callback \<^verbatim>\<open>(result) => {...}\<close> of the \<open>i\<close>-th call to \<^verbatim>\<open>getFeatures\<close>. It closes over
  the key of that call and reads \<^verbatim>\<open>this.requests\<close> and \<^verbatim>\<open>this.store\<close> when it runs.
  \<^verbatim>\<open>accept()\<close> is called in either branch. A number that names no call has no callback.
\<close>

definition on_result :: "nat \<Rightarrow> 'f fetch_result \<Rightarrow> 'f world \<Rightarrow> 'f world" where
  "on_result i result w =
    (if i < length (fetches w) then
       (let key = call_key (fetches w ! i);
            w' = (if key \<in> requests w then
                    w\<lparr>store := (store w)(key \<mapsto>
                          (if length (features_or_empty result) = 1
                           then Some (features_or_empty result ! 0) else None)),
                      requests := requests w - {key}\<rparr>
                  else w)
        in w'\<lparr>accepted := insert i (accepted w')\<rparr>)
     else w)"

text \<open>\<^verbatim>\<open>ExpressionFeatureCache.clear\<close>\<close>

definition clear :: "'f world \<Rightarrow> 'f world" where
  "clear w = w\<lparr>store := Map.empty, requests := {}\<rparr>"

text \<open>
  What can happen to the cache between two points of a run: some evaluator calls
  \<^verbatim>\<open>get\<close>, the callback of some dispatched fetch runs, or the host calls \<^verbatim>\<open>clear\<close>.
\<close>

datatype 'f event =
    Get jsarg string jsarg jsarg
  | Complete nat "'f fetch_result"
  | Clear

fun step :: "'f event \<Rightarrow> 'f world \<Rightarrow> 'f world" where
  "step (Get dataset mapCrs attr val) w = snd (snd (get dataset mapCrs attr val [] w))"
| "step (Complete i result) w = on_result i result w"
| "step Clear w = clear w"

fun run_events :: "'f event list \<Rightarrow> 'f world \<Rightarrow> 'f world" where
  "run_events [] w = w"
| "run_events (e # es) w = run_events es (step e w)"

text \<open>The number of \<^verbatim>\<open>getFeatures\<close> calls made so far for a key.\<close>

definition dispatches :: "string \<Rightarrow> 'f world \<Rightarrow> nat" where
  "dispatches k w = length (filter (\<lambda>c. call_key c = k) (fetches w))"

subsection \<open>Predicates on the state used in the proofs\<close>

text \<open>
  \<open>consistent\<close>: a key is never in the store and in the pending set at once (\<^verbatim>\<open>get\<close> adds
  a key to \<^verbatim>\<open>requests\<close> only when the store does not have it, and the callback removes the
  key from \<^verbatim>\<open>requests\<close> when it writes the store). \<open>held\<close>: the key is pending or resolved.
\<close>

definition consistent :: "'f world \<Rightarrow> bool" where
  "consistent w = (\<forall>k. k \<in> requests w \<longrightarrow> store w k = None)"

definition held :: "string \<Rightarrow> 'f world \<Rightarrow> bool" where
  "held k w = (k \<in> requests w \<or> store w k \<noteq> None)"

section \<open>The evaluator\<close>

subsection \<open>The parser as seen from the evaluator\<close>

text \<open>
  \<^verbatim>\<open>parseExpression\<close> and \<^verbatim>\<open>parseExpressionsAsync\<close> build a nearley parser from the compiled
  grammar \<^verbatim>\<open>./expr_grammar/grammar\<close> and call \<^verbatim>\<open>parser.feed\<close> inside \<^verbatim>\<open>try\<close>. The grammar is
  not part of the sources at hand, so it is a parameter of the model. All the evaluator
  can observe of one \<^verbatim>\<open>feed\<close> is: the calls the grammar makes to the \<^verbatim>\<open>getFeature\<close> hook of
  \<^verbatim>\<open>window.qwc2ExpressionParserContext\<close>, each answered at once with a feature or
  \<^verbatim>\<open>null\<close>, and then either a first result \<^verbatim>\<open>parser.results[0]\<close> or an exception. A \<open>run\<close>
  is such a behaviour; a grammar maps the text fed, the context's feature and the
  context's \<^verbatim>\<open>asFilter\<close> flag to a run. Results are values of the type variable \<open>'v\<close>.
\<close>

datatype ('f, 'v) run =
    Done 'v
  | Throw
  | GetFeature jsarg jsarg jsarg "'f option \<Rightarrow> ('f, 'v) run"

type_synonym ('f, 'v) grammar = "string \<Rightarrow> 'f \<Rightarrow> bool \<Rightarrow> ('f, 'v) run"

datatype 'v outcome = Returned 'v | Raised

text \<open>
  One \<^verbatim>\<open>parser.feed\<close> under the context the evaluators install: the hook is
  \<^verbatim>\<open>(layerName, attr, value) => ExpressionFeatureCache.get(editIface, mapPrefix + layerName,
  mapCrs, attr, value, promises)\<close>. The layer name, the attribute and the value are whatever
  values the grammar passes; \<^verbatim>\<open>mapPrefix\<close> is the host's prefix for layer names, a string, so
  \<^verbatim>\<open>mapPrefix + layerName\<close> is the prefix followed by the string of the layer name.
\<close>

primrec feed ::
  "('f, 'v) run \<Rightarrow> string \<Rightarrow> string \<Rightarrow> promise list \<Rightarrow> 'f world
    \<Rightarrow> 'v outcome \<times> promise list \<times> 'f world" where
  "feed (Done v) mapPrefix mapCrs promises w = (Returned v, promises, w)"
| "feed Throw mapPrefix mapCrs promises w = (Raised, promises, w)"
| "feed (GetFeature layerName attr val k) mapPrefix mapCrs promises w =
    (case get (Str (mapPrefix @ to_string layerName)) mapCrs attr val promises w of
      (r, promises', w') \<Rightarrow> feed (k r) mapPrefix mapCrs promises' w')"

text \<open>
  \<^verbatim>\<open>expr.replace(/\n/, ' ')\<close>: the pattern has no \<^verbatim>\<open>g\<close> flag, so \<^verbatim>\<open>replace\<close> stops at the
  first line feed.
\<close>

fun replace_newline :: "string \<Rightarrow> string" where
  "replace_newline [] = []"
| "replace_newline (c # cs) =
    (if c = CHR 0x0A then CHR '' '' # cs else c # replace_newline cs)"

text \<open>\<^verbatim>\<open>console.warn("Failed to evaluate expression " + expr.replace(/\n/, ' '))\<close>\<close>

definition warn_failed :: "string \<Rightarrow> 'f world \<Rightarrow> 'f world" where
  "warn_failed expr w =
    w\<lparr>warnings := warnings w @ [''Failed to evaluate expression '' @ replace_newline expr]\<rparr>"

subsection \<open>\<^verbatim>\<open>parseExpression\<close>\<close>

text \<open>
  What \<^verbatim>\<open>parseExpression\<close> returns is \<^verbatim>\<open>null\<close>, the parser's result, or the one-element
  array \<^verbatim>\<open>[result]\<close>.
\<close>

datatype 'v jsvalue = Null | Value 'v | Singleton "'v jsvalue"

text \<open>
  One call of \<^verbatim>\<open>parseExpression\<close> is one round. Besides the value returned, a round either
  calls \<^verbatim>\<open>reevaluateCallback\<close> or not, and either leaves
  \<^verbatim>\<open>Promise.all(promises).then(() => parseExpression(..., true))\<close> behind or not; \<open>awaited\<close>
  is the list of promises given to \<^verbatim>\<open>Promise.all\<close>, empty when no further round is scheduled.
\<close>

record 'v round =
  returned :: "'v jsvalue"
  callback_invoked :: bool
  awaited :: "promise list"

definition parseExpression ::
  "('f, 'v) grammar \<Rightarrow> string \<Rightarrow> 'f \<Rightarrow> string \<Rightarrow> string \<Rightarrow> bool \<Rightarrow> bool \<Rightarrow> 'f world
    \<Rightarrow> 'v round \<times> 'f world" where
  "parseExpression G expr feature mapPrefix mapCrs asFilter reevaluate w =
    (case feed (G (replace_newline expr) feature asFilter) mapPrefix mapCrs [] w of
      (out, promises, w1) \<Rightarrow>
        (let (result, w2) =
           (case out of
              Returned v \<Rightarrow> (Value v, w1)
            | Raised \<Rightarrow> (Null, warn_failed expr w1))
         in if length promises > 0 then
              (\<lparr>returned = Null, callback_invoked = False, awaited = promises\<rparr>, w2)
            else
              (\<lparr>returned = (if asFilter then Singleton result else result),
                callback_invoked = reevaluate, awaited = []\<rparr>, w2)))"

text \<open>
  The rounds that one top-level call sets off. The next round runs when every promise
  of the round before has been accepted; \<open>envs\<close> gives, for each wait, the events that
  happen to the cache until then (callbacks of fetches, calls of \<^verbatim>\<open>get\<close> by other
  evaluators, \<^verbatim>\<open>clear\<close>). If the events of a wait do not accept all the awaited promises, or
  if \<open>envs\<close> is used up, the list of rounds ends there: the next round has not run. Every
  round after the first is called with \<^verbatim>\<open>reevaluate = true\<close>.
\<close>

fun parseExpression_rounds ::
  "('f, 'v) grammar \<Rightarrow> string \<Rightarrow> 'f \<Rightarrow> string \<Rightarrow> string \<Rightarrow> bool \<Rightarrow> bool
    \<Rightarrow> 'f event list list \<Rightarrow> 'f world \<Rightarrow> 'v round list" where
  "parseExpression_rounds G expr feature mapPrefix mapCrs asFilter reevaluate [] w =
    [fst (parseExpression G expr feature mapPrefix mapCrs asFilter reevaluate w)]"
| "parseExpression_rounds G expr feature mapPrefix mapCrs asFilter reevaluate (env # envs) w =
    (case parseExpression G expr feature mapPrefix mapCrs asFilter reevaluate w of
      (r, w1) \<Rightarrow>
        if awaited r = [] then [r]
        else (let w2 = run_events env w1 in
              if set (awaited r) \<subseteq> accepted w2
              then r # parseExpression_rounds G expr feature mapPrefix mapCrs asFilter True envs w2
              else [r]))"

subsection \<open>\<^verbatim>\<open>parseExpressionsAsync\<close>\<close>

text \<open>
  The callback of \<^verbatim>\<open>Object.entries(expressions).reduce(..., {})\<close>: one parser per entry, all
  on the same promise list. \<open>expressions\<close> is the list of entries in the order
  \<^verbatim>\<open>Object.entries\<close> gives them; the names of an object's entries are distinct.
\<close>

definition reduce_step ::
  "('f, 'v) grammar \<Rightarrow> 'f \<Rightarrow> string \<Rightarrow> string \<Rightarrow> bool
    \<Rightarrow> (string \<rightharpoonup> 'v) \<times> promise list \<times> 'f world \<Rightarrow> string \<times> string
    \<Rightarrow> (string \<rightharpoonup> 'v) \<times> promise list \<times> 'f world" where
  "reduce_step G feature mapPrefix mapCrs asFilter acc entry =
    (case acc of (res, promises, w) \<Rightarrow>
     case entry of (key, expr) \<Rightarrow>
     case feed (G (replace_newline expr) feature asFilter) mapPrefix mapCrs promises w of
       (Returned v, promises', w') \<Rightarrow> (res(key \<mapsto> v), promises', w')
     | (Raised, promises', w') \<Rightarrow> (res, promises', warn_failed expr w'))"

definition batch_pass ::
  "('f, 'v) grammar \<Rightarrow> (string \<times> string) list \<Rightarrow> 'f \<Rightarrow> string \<Rightarrow> string \<Rightarrow> bool
    \<Rightarrow> promise list \<Rightarrow> 'f world \<Rightarrow> (string \<rightharpoonup> 'v) \<times> promise list \<times> 'f world" where
  "batch_pass G expressions feature mapPrefix mapCrs asFilter promises w =
    foldl (reduce_step G feature mapPrefix mapCrs asFilter) (Map.empty, promises, w) expressions"

text \<open>
  The body of \<^verbatim>\<open>parseExpressionsAsync\<close> is the executor of the promise it returns, and the
  executor runs before \<^verbatim>\<open>new Promise\<close> returns. In the branch for a non-empty promise list
  the statement is
  \<^verbatim>\<open>Promise.all(promises).then(parseExpressionsAsync(...).then(resolve(results)));\<close>
  The argument of the outer \<^verbatim>\<open>then\<close> is not a function but an expression, evaluated on the
  spot: the recursive call runs first, at once, on the state the pass has left; then
  \<^verbatim>\<open>resolve(results)\<close>, the argument of the inner \<^verbatim>\<open>then\<close>, is evaluated, which resolves the
  returned promise with the mapping of the pass just made. Both \<^verbatim>\<open>then\<close> calls receive
  values that are not functions and register nothing. So the call has resolved its
  promise by the time it returns, and the model returns the value the promise is
  resolved with, together with the state. The recursion is written as the source has it;
  that it ends is proved below.
\<close>

partial_function (option) parseExpressionsAsync ::
  "('f, 'v) grammar \<Rightarrow> (string \<times> string) list \<Rightarrow> 'f \<Rightarrow> string \<Rightarrow> string \<Rightarrow> bool \<Rightarrow> 'f world
    \<Rightarrow> ((string \<rightharpoonup> 'v) \<times> 'f world) option" where
  "parseExpressionsAsync G expressions feature mapPrefix mapCrs asFilter w =
    (case batch_pass G expressions feature mapPrefix mapCrs asFilter [] w of
      (results, promises, w1) \<Rightarrow>
        if length promises > 0 then
          Option.bind (parseExpressionsAsync G expressions feature mapPrefix mapCrs asFilter w1)
            (\<lambda>inner. Some (results, snd inner))
        else Some (results, w1))"

text \<open>
  The outcome of the parse of one entry of a batch, in the state and with the promise
  list that the entries before it have left.
\<close>

definition entry_outcome ::
  "('f, 'v) grammar \<Rightarrow> (string \<times> string) list \<Rightarrow> string \<Rightarrow> 'f \<Rightarrow> string \<Rightarrow> string \<Rightarrow> bool
    \<Rightarrow> 'f world \<Rightarrow> 'v outcome" where
  "entry_outcome G before expr feature mapPrefix mapCrs asFilter w =
    (case batch_pass G before feature mapPrefix mapCrs asFilter [] w of
      (res, promises, w1) \<Rightarrow>
        fst (feed (G (replace_newline expr) feature asFilter) mapPrefix mapCrs promises w1))"

subsection \<open>Grammars used in the examples\<close>

text \<open>
  \<open>echo\<close> returns the text it is fed. \<open>sample_grammar\<close> has one text that evaluates with no
  lookup, one that is rejected at once, one that looks a parcel up and is rejected after
  that, and one that evaluates to the parcel looked up (\<^verbatim>\<open>null\<close> while it is not there).
  Features and results are numbers here.
\<close>

definition echo :: "('f, string) grammar" where
  "echo input feature asFilter = Done input"

definition sample_grammar :: "(nat, nat option) grammar" where
  "sample_grammar input feature asFilter =
    (if input = ''1+1'' then Done (Some 2)
     else if input = ''{a +'' then Throw
     else if input = ''getFeature(parcels,id,42) )''
       then GetFeature (Str ''parcels'') (Str ''id'') (Str ''42'') (\<lambda>r. Throw)
     else GetFeature (Str ''parcels'') (Str ''id'') (Str ''42'') Done)"

section \<open>Basic facts about the cache operations\<close>

lemma consistent_init: "consistent init_world"
  by (simp add: consistent_def init_world_def)

lemma consistent_step: "consistent w \<Longrightarrow> consistent (step e w)"
proof (cases e)
  case (Get d c a v)
  assume "consistent w"
  then show ?thesis
    using Get by (auto simp: consistent_def get_def Let_def split: option.splits)
next
  case (Complete i r)
  assume "consistent w"
  then show ?thesis
    using Complete by (auto simp: consistent_def on_result_def Let_def)
next
  case Clear
  then show ?thesis by (simp add: consistent_def clear_def)
qed

lemma consistent_run: "consistent w \<Longrightarrow> consistent (run_events es w)"
  by (induction es arbitrary: w) (simp_all add: consistent_step)

lemma run_events_append: "run_events (es @ es') w = run_events es' (run_events es w)"
  by (induction es arbitrary: w) simp_all

lemma store_step_kept:
  assumes "consistent w" and "store w k = Some entry" and "e \<noteq> Clear"
  shows "store (step e w) k = Some entry"
proof (cases e)
  case (Get d c a v)
  then show ?thesis
    using assms by (auto simp: get_def Let_def split: option.splits)
next
  case (Complete i r)
  have "k \<notin> requests w"
    using assms(1,2) by (auto simp: consistent_def)
  then show ?thesis
    using Complete assms(2) by (auto simp: on_result_def Let_def)
next
  case Clear
  then show ?thesis using assms(3) by simp
qed

lemma store_run_kept:
  "consistent w \<Longrightarrow> store w k = Some entry \<Longrightarrow> Clear \<notin> set es
    \<Longrightarrow> store (run_events es w) k = Some entry"
proof (induction es arbitrary: w)
  case Nil
  then show ?case by simp
next
  case (Cons e es)
  from Cons.prems have "e \<noteq> Clear" and "Clear \<notin> set es" by auto
  with Cons.prems have "store (step e w) k = Some entry"
    by (simp add: store_step_kept)
  moreover have "consistent (step e w)"
    using Cons.prems(1) by (rule consistent_step)
  ultimately show ?case
    using Cons.IH \<open>Clear \<notin> set es\<close> by simp
qed

text \<open>The log of fetch calls only grows, so a call keeps its number.\<close>

lemma fetches_step: "\<exists>cs. fetches (step e w) = fetches w @ cs"
  by (cases e) (auto simp: get_def on_result_def clear_def Let_def split: option.splits)

lemma fetches_run: "\<exists>cs. fetches (run_events es w) = fetches w @ cs"
proof (induction es arbitrary: w)
  case Nil
  then show ?case by simp
next
  case (Cons e es)
  obtain cs where "fetches (step e w) = fetches w @ cs"
    using fetches_step by blast
  moreover obtain ds where "fetches (run_events es (step e w)) = fetches (step e w) @ ds"
    using Cons.IH by blast
  ultimately show ?case by simp
qed

lemma held_step:
  assumes "held k w" and "e \<noteq> Clear"
  shows "dispatches k (step e w) = dispatches k w \<and> held k (step e w)"
proof (cases e)
  case (Get d c a v)
  then show ?thesis
    using assms(1)
    by (auto simp: held_def dispatches_def get_def call_key_def Let_def split: option.splits)
next
  case (Complete i r)
  then show ?thesis
    using assms(1) by (auto simp: held_def dispatches_def on_result_def Let_def)
next
  case Clear
  then show ?thesis using assms(2) by simp
qed

lemma held_run:
  "held k w \<Longrightarrow> Clear \<notin> set es
    \<Longrightarrow> dispatches k (run_events es w) = dispatches k w \<and> held k (run_events es w)"
proof (induction es arbitrary: w)
  case Nil
  then show ?case by simp
next
  case (Cons e es)
  from Cons.prems have ne: "e \<noteq> Clear" and rest: "Clear \<notin> set es" by auto
  from held_step [OF Cons.prems(1) ne]
  have "dispatches k (step e w) = dispatches k w" and "held k (step e w)" by simp_all
  with Cons.IH [OF _ rest] show ?case by simp
qed

lemma dispatch_step:
  "dispatches k (step e w) = dispatches k w
    \<or> (dispatches k (step e w) = dispatches k w + 1 \<and> held k (step e w))"
  by (cases e)
    (auto simp: held_def dispatches_def get_def on_result_def clear_def call_key_def Let_def
      split: option.splits)

section \<open>Lookups on a pending key\<close>

text \<open>
  C3. A call of \<^verbatim>\<open>get\<close> whose key is in the pending set and not in the store returns
  \<^verbatim>\<open>null\<close>, leaves the caller's promise list as it was, and changes nothing: no fetch is
  dispatched and the caller is not attached to the one outstanding.
\<close>

theorem get_pending_returns_null:
  assumes "cache_key dataset attr val \<in> requests w"
    and "store w (cache_key dataset attr val) = None"
  shows "get dataset mapCrs attr val promises w = (None, promises, w)"
  using assms by (simp add: get_def)

theorem get_pending_returns_null_witness:
  "cache_key (Str ''parcels'') (Str ''id'') (Str ''42'')
      \<in> requests (step (Get (Str ''parcels'') ''EPSG:3857'' (Str ''id'') (Str ''42'')) (init_world :: nat world))
   \<and> store (step (Get (Str ''parcels'') ''EPSG:3857'' (Str ''id'') (Str ''42'')) (init_world :: nat world))
        (cache_key (Str ''parcels'') (Str ''id'') (Str ''42'')) = None
   \<and> get (Str ''parcels'') ''EPSG:3857'' (Str ''id'') (Str ''42'') [7]
        (step (Get (Str ''parcels'') ''EPSG:3857'' (Str ''id'') (Str ''42'')) (init_world :: nat world))
      = (None, [7], step (Get (Str ''parcels'') ''EPSG:3857'' (Str ''id'') (Str ''42'')) init_world)"
proof -
  let ?w = "step (Get (Str ''parcels'') ''EPSG:3857'' (Str ''id'') (Str ''42'')) (init_world :: nat world)"
  have a: "cache_key (Str ''parcels'') (Str ''id'') (Str ''42'') \<in> requests ?w"
    by (simp add: get_def init_world_def cache_key_def)
  have b: "store ?w (cache_key (Str ''parcels'') (Str ''id'') (Str ''42'')) = None"
    by (simp add: get_def init_world_def cache_key_def)
  from get_pending_returns_null [OF a b] a b show ?thesis by blast
qed

section \<open>Single dispatch\<close>

text \<open>
  C1. Between two calls of \<^verbatim>\<open>clear\<close>, \<^verbatim>\<open>getFeatures\<close> is called at most once for a key:
  whatever calls of \<^verbatim>\<open>get\<close> (for this key or others, by any number of evaluation rounds)
  and whatever fetch callbacks run from a state \<open>w\<close>, as long as none of them is
  \<^verbatim>\<open>clear\<close>, the log of fetch calls gains at most one call with that key.
\<close>

theorem single_dispatch_between_clears:
  "Clear \<notin> set es \<Longrightarrow> dispatches k (run_events es w) \<le> dispatches k w + 1"
proof (induction es arbitrary: w)
  case Nil
  then show ?case by simp
next
  case (Cons e es)
  from Cons.prems have rest: "Clear \<notin> set es" by simp
  from dispatch_step [of k e w] show ?case
  proof
    assume "dispatches k (step e w) = dispatches k w"
    with Cons.IH [OF rest, of "step e w"] show ?thesis by simp
  next
    assume "dispatches k (step e w) = dispatches k w + 1 \<and> held k (step e w)"
    with held_run [OF _ rest, of k "step e w"] show ?thesis by simp
  qed
qed

theorem single_dispatch_between_clears_witness:
  "Clear \<notin> set [Get (Str ''parcels'') ''EPSG:3857'' (Str ''id'') (Str ''42''), Get (Str ''parcels'') ''EPSG:3857'' (Str ''id'') (Str ''42''),
       Complete 0 (Response (Some [5::nat])), Get (Str ''parcels'') ''EPSG:3857'' (Str ''id'') (Str ''42'')]
   \<and> dispatches ''parcels:id:42''
        (run_events [Get (Str ''parcels'') ''EPSG:3857'' (Str ''id'') (Str ''42''), Get (Str ''parcels'') ''EPSG:3857'' (Str ''id'') (Str ''42''),
           Complete 0 (Response (Some [5::nat])), Get (Str ''parcels'') ''EPSG:3857'' (Str ''id'') (Str ''42'')] init_world)
      \<le> dispatches ''parcels:id:42'' (init_world :: nat world) + 1
   \<and> dispatches ''parcels:id:42''
        (run_events [Get (Str ''parcels'') ''EPSG:3857'' (Str ''id'') (Str ''42''), Get (Str ''parcels'') ''EPSG:3857'' (Str ''id'') (Str ''42''),
           Complete 0 (Response (Some [5::nat])), Get (Str ''parcels'') ''EPSG:3857'' (Str ''id'') (Str ''42'')] init_world) = 1"
proof -
  let ?es = "[Get (Str ''parcels'') ''EPSG:3857'' (Str ''id'') (Str ''42''), Get (Str ''parcels'') ''EPSG:3857'' (Str ''id'') (Str ''42''),
       Complete 0 (Response (Some [5::nat])), Get (Str ''parcels'') ''EPSG:3857'' (Str ''id'') (Str ''42'')]"
  have h: "Clear \<notin> set ?es" by simp
  have v: "dispatches ''parcels:id:42'' (run_events ?es init_world) = 1"
    by (simp add: dispatches_def get_def on_result_def init_world_def cache_key_def call_key_def)
  from single_dispatch_between_clears [OF h, of "''parcels:id:42''" init_world] h v
  show ?thesis by blast
qed

section \<open>Resolved entries\<close>

text \<open>
  C4. Once the store holds an entry for a key (a feature, or \<^verbatim>\<open>null\<close> for a lookup that
  found no single match), the entry stays as it is through every later call of \<^verbatim>\<open>get\<close>
  and every later fetch callback, until \<^verbatim>\<open>clear\<close>; \<^verbatim>\<open>get\<close> for that key returns the entry,
  pushes no promise and changes nothing. The state before is any state the cache can
  reach from its initial one.
\<close>

theorem resolved_entry_is_stable:
  assumes "store (run_events es0 init_world) (cache_key dataset attr val) = Some entry"
    and "Clear \<notin> set es"
  shows "store (run_events (es0 @ es) init_world) (cache_key dataset attr val) = Some entry
    \<and> get dataset mapCrs attr val promises (run_events (es0 @ es) init_world)
        = (entry, promises, run_events (es0 @ es) init_world)"
proof -
  have "consistent (run_events es0 (init_world :: 'a world))"
    by (simp add: consistent_run consistent_init)
  from store_run_kept [OF this assms]
  have "store (run_events (es0 @ es) init_world) (cache_key dataset attr val) = Some entry"
    by (simp add: run_events_append)
  then show ?thesis by (simp add: get_def)
qed

theorem resolved_entry_is_stable_witness:
  "store (run_events [Get (Str ''parcels'') ''EPSG:3857'' (Str ''id'') (Str ''42''), Complete 0 (Response (Some [5::nat]))]
       init_world) (cache_key (Str ''parcels'') (Str ''id'') (Str ''42'')) = Some (Some 5)
   \<and> Clear \<notin> set [Get (Str ''parcels'') ''EPSG:3857'' (Str ''id'') (Str ''42''), Complete 0 (NoResult :: nat fetch_result)]
   \<and> store (run_events
        ([Get (Str ''parcels'') ''EPSG:3857'' (Str ''id'') (Str ''42''), Complete 0 (Response (Some [5::nat]))]
          @ [Get (Str ''parcels'') ''EPSG:3857'' (Str ''id'') (Str ''42''), Complete 0 NoResult])
       init_world) (cache_key (Str ''parcels'') (Str ''id'') (Str ''42'')) = Some (Some 5)"
proof -
  let ?before = "[Get (Str ''parcels'') ''EPSG:3857'' (Str ''id'') (Str ''42''), Complete 0 (Response (Some [5::nat]))]"
  let ?after = "[Get (Str ''parcels'') ''EPSG:3857'' (Str ''id'') (Str ''42''), Complete 0 (NoResult :: nat fetch_result)]"
  have a: "store (run_events ?before init_world) (cache_key (Str ''parcels'') (Str ''id'') (Str ''42'')) = Some (Some 5)"
    by (simp add: get_def on_result_def init_world_def cache_key_def call_key_def)
  have b: "Clear \<notin> set ?after" by simp
  have "store (run_events (?before @ ?after) init_world) (cache_key (Str ''parcels'') (Str ''id'') (Str ''42'')) = Some (Some 5)"
    using resolved_entry_is_stable [OF a b] by (rule conjunct1)
  with a b show ?thesis by (intro conjI)
qed

text \<open>
  A pending key stays pending as long as \<^verbatim>\<open>clear\<close> is not called and no callback runs for a
  fetch with that key (fetches are named by their place in the final log; the log only
  grows).
\<close>

lemma pending_step:
  assumes "k \<in> requests w" and "e \<noteq> Clear"
    and "\<forall>j r. e = Complete j r \<longrightarrow> j < length (fetches w) \<longrightarrow> call_key (fetches w ! j) \<noteq> k"
  shows "k \<in> requests (step e w)"
proof (cases e)
  case (Get d c a v)
  then show ?thesis
    using assms(1) by (auto simp: get_def Let_def split: option.splits)
next
  case (Complete j r)
  then show ?thesis
    using assms(1,3) by (auto simp: on_result_def Let_def)
next
  case Clear
  then show ?thesis using assms(2) by simp
qed

lemma pending_until_completed:
  assumes "k \<in> requests w" and "Clear \<notin> set es"
    and "\<forall>j r. Complete j r \<in> set es \<longrightarrow> j < length (fetches (run_events es w))
          \<longrightarrow> call_key (fetches (run_events es w) ! j) \<noteq> k"
  shows "k \<in> requests (run_events es w)"
  using assms
proof (induction es arbitrary: w)
  case Nil
  then show ?case by simp
next
  case (Cons e es)
  obtain cs where s1: "fetches (step e w) = fetches w @ cs"
    using fetches_step by blast
  obtain ds where s2: "fetches (run_events es (step e w)) = fetches (step e w) @ ds"
    using fetches_run by blast
  have "\<forall>j r. e = Complete j r \<longrightarrow> j < length (fetches w) \<longrightarrow> call_key (fetches w ! j) \<noteq> k"
  proof (intro allI impI)
    fix j r
    assume e: "e = Complete j r" and j: "j < length (fetches w)"
    have "Complete j r \<in> set (e # es)" using e by simp
    moreover have "j < length (fetches (run_events (e # es) w))"
      using j s1 s2 by simp
    moreover have "fetches (run_events (e # es) w) ! j = fetches w ! j"
      using j s1 s2 by (simp add: nth_append)
    ultimately show "call_key (fetches w ! j) \<noteq> k"
      using Cons.prems(3) by metis
  qed
  moreover from Cons.prems(2) have "e \<noteq> Clear" and rest: "Clear \<notin> set es" by auto
  ultimately have p: "k \<in> requests (step e w)"
    using Cons.prems(1) by (simp add: pending_step)
  have "\<forall>j r. Complete j r \<in> set es \<longrightarrow> j < length (fetches (run_events es (step e w)))
          \<longrightarrow> call_key (fetches (run_events es (step e w)) ! j) \<noteq> k"
    using Cons.prems(3) by simp
  with Cons.IH [OF p rest] show ?case by simp
qed

text \<open>
  C7, as the code has it. When the callback of a dispatched fetch runs while its key is
  still in the pending set, the store gets the single feature of the result if the result
  has exactly one, and \<^verbatim>\<open>null\<close> if it has none, several, no \<^verbatim>\<open>features\<close> field or is itself
  \<^verbatim>\<open>null\<close>; the key leaves the pending set; and a later \<^verbatim>\<open>get\<close> for the fetch's dataset,
  attribute and value returns what was stored (\<^verbatim>\<open>null\<close> for no match, as a value and not as
  an error), with no new promise.
\<close>

theorem completion_stores_outcome:
  assumes "i < length (fetches w)"
    and "call_key (fetches w ! i) \<in> requests w"
  shows "store (on_result i result w) (call_key (fetches w ! i))
      = Some (case features_or_empty result of [f] \<Rightarrow> Some f | _ \<Rightarrow> None)
    \<and> call_key (fetches w ! i) \<notin> requests (on_result i result w)
    \<and> get (fc_dataset (fetches w ! i)) mapCrs (fc_attr (fetches w ! i)) (fc_value (fetches w ! i))
        promises (on_result i result w)
      = (case features_or_empty result of [f] \<Rightarrow> Some f | _ \<Rightarrow> None,
         promises, on_result i result w)"
proof -
  have "(if length (features_or_empty result) = 1 then Some (features_or_empty result ! 0) else None)
      = (case features_or_empty result of [f] \<Rightarrow> Some f | _ \<Rightarrow> None)"
    by (cases "features_or_empty result" rule: list.exhaust)
      (auto split: list.splits)
  with assms show ?thesis
    by (simp add: on_result_def get_def Let_def call_key_def)
qed

theorem completion_stores_outcome_witness:
  "0 < length (fetches (step (Get (Str ''parcels'') ''EPSG:3857'' (Str ''id'') (Str ''42'')) (init_world :: nat world)))
   \<and> call_key (fetches (step (Get (Str ''parcels'') ''EPSG:3857'' (Str ''id'') (Str ''42'')) (init_world :: nat world)) ! 0)
       \<in> requests (step (Get (Str ''parcels'') ''EPSG:3857'' (Str ''id'') (Str ''42'')) (init_world :: nat world))
   \<and> store (on_result 0 (Response (Some [5, 6]))
        (step (Get (Str ''parcels'') ''EPSG:3857'' (Str ''id'') (Str ''42'')) (init_world :: nat world)))
       ''parcels:id:42'' = Some None
   \<and> store (on_result 0 (Response (Some [5]))
        (step (Get (Str ''parcels'') ''EPSG:3857'' (Str ''id'') (Str ''42'')) (init_world :: nat world)))
       ''parcels:id:42'' = Some (Some 5)"
proof -
  let ?w = "step (Get (Str ''parcels'') ''EPSG:3857'' (Str ''id'') (Str ''42'')) (init_world :: nat world)"
  have a: "0 < length (fetches ?w)"
    by (simp add: get_def init_world_def cache_key_def)
  have b: "call_key (fetches ?w ! 0) \<in> requests ?w"
    by (simp add: get_def init_world_def cache_key_def call_key_def)
  have k: "call_key (fetches ?w ! 0) = ''parcels:id:42''"
    by (simp add: get_def init_world_def cache_key_def call_key_def)
  have "store (on_result 0 (Response (Some [5, 6])) ?w) (call_key (fetches ?w ! 0))
      = Some (case features_or_empty (Response (Some [5, 6::nat])) of [f] \<Rightarrow> Some f | _ \<Rightarrow> None)"
    using completion_stores_outcome [OF a b, of "Response (Some [5, 6])"] by (rule conjunct1)
  then have c: "store (on_result 0 (Response (Some [5, 6])) ?w) ''parcels:id:42'' = Some None"
    unfolding k by simp
  have "store (on_result 0 (Response (Some [5])) ?w) (call_key (fetches ?w ! 0))
      = Some (case features_or_empty (Response (Some [5::nat])) of [f] \<Rightarrow> Some f | _ \<Rightarrow> None)"
    using completion_stores_outcome [OF a b, of "Response (Some [5])"] by (rule conjunct1)
  then have d: "store (on_result 0 (Response (Some [5])) ?w) ''parcels:id:42'' = Some (Some 5)"
    unfolding k by simp
  from a b c d show ?thesis by (intro conjI)
qed

text \<open>
  Without the condition the claim fails. A fetch dispatched before \<^verbatim>\<open>clear\<close> that comes back
  with one feature after it stores nothing. And after \<^verbatim>\<open>get\<close>, \<^verbatim>\<open>clear\<close>, \<^verbatim>\<open>get\<close> for one
  key, once the callback of the first fetch has run, the second fetch (dispatched, not yet
  answered) comes back with the one feature \<open>6\<close> and the store does not hold \<open>6\<close>.
\<close>

theorem completion_without_pending_key_stores_nothing:
  "length (fetches (run_events [Get (Str ''parcels'') ''EPSG:3857'' (Str ''id'') (Str ''42''), Clear]
      (init_world :: nat world))) = 1
   \<and> store (on_result 0 (Response (Some [5]))
        (run_events [Get (Str ''parcels'') ''EPSG:3857'' (Str ''id'') (Str ''42''), Clear]
          (init_world :: nat world))) ''parcels:id:42'' = None
   \<and> length (fetches (run_events [Get (Str ''parcels'') ''EPSG:3857'' (Str ''id'') (Str ''42''), Clear,
        Get (Str ''parcels'') ''EPSG:3857'' (Str ''id'') (Str ''42''), Complete 0 (Response (Some [5]))]
      (init_world :: nat world))) = 2
   \<and> store (on_result 1 (Response (Some [6]))
        (run_events [Get (Str ''parcels'') ''EPSG:3857'' (Str ''id'') (Str ''42''), Clear,
          Get (Str ''parcels'') ''EPSG:3857'' (Str ''id'') (Str ''42''), Complete 0 (Response (Some [5]))]
        (init_world :: nat world))) ''parcels:id:42'' = Some (Some 5)"
  by (simp add: get_def on_result_def clear_def init_world_def cache_key_def call_key_def)

section \<open>Cache keys\<close>

lemma split_at_separator:
  "c \<notin> set xs \<Longrightarrow> c \<notin> set ys \<Longrightarrow> xs @ c # r1 = ys @ c # r2 \<Longrightarrow> xs = ys \<and> r1 = r2"
proof (induction xs arbitrary: ys)
  case Nil
  then show ?case by (cases ys) auto
next
  case (Cons x xs)
  then show ?case by (cases ys) auto
qed

text \<open>
  C8, as the code has it. The key is the string \<^verbatim>\<open>dataset + ":" + attr + ":" + value\<close>, with
  each component converted to a string, so two calls share an entry exactly when these
  strings are equal. When the strings of dataset and attribute name contain no colon, that
  is the case exactly when the three components have pairwise the same string.
\<close>

theorem cache_key_injective_without_colon:
  assumes "CHR '':'' \<notin> set (to_string d1)" and "CHR '':'' \<notin> set (to_string a1)"
    and "CHR '':'' \<notin> set (to_string d2)" and "CHR '':'' \<notin> set (to_string a2)"
  shows "(cache_key d1 a1 v1 = cache_key d2 a2 v2)
    = (to_string d1 = to_string d2 \<and> to_string a1 = to_string a2 \<and> to_string v1 = to_string v2)"
proof
  assume eq: "cache_key d1 a1 v1 = cache_key d2 a2 v2"
  then have "to_string d1 @ CHR '':'' # (to_string a1 @ CHR '':'' # to_string v1)
      = to_string d2 @ CHR '':'' # (to_string a2 @ CHR '':'' # to_string v2)"
    by (simp add: cache_key_def)
  from split_at_separator [OF assms(1) assms(3) this]
  have d: "to_string d1 = to_string d2"
    and "to_string a1 @ CHR '':'' # to_string v1 = to_string a2 @ CHR '':'' # to_string v2"
    by simp_all
  from split_at_separator [OF assms(2) assms(4) this(2)] d
  show "to_string d1 = to_string d2 \<and> to_string a1 = to_string a2 \<and> to_string v1 = to_string v2"
    by simp
next
  assume "to_string d1 = to_string d2 \<and> to_string a1 = to_string a2 \<and> to_string v1 = to_string v2"
  then show "cache_key d1 a1 v1 = cache_key d2 a2 v2" by (simp add: cache_key_def)
qed

theorem cache_key_injective_without_colon_witness:
  "CHR '':'' \<notin> set (to_string (Str ''parcels'')) \<and> CHR '':'' \<notin> set (to_string (Str ''id''))
   \<and> CHR '':'' \<notin> set (to_string (Str ''roads'')) \<and> CHR '':'' \<notin> set (to_string (Str ''name''))
   \<and> (cache_key (Str ''parcels'') (Str ''id'') (Str ''4:2'') = cache_key (Str ''roads'') (Str ''name'') (Num 7))
      = (to_string (Str ''parcels'') = to_string (Str ''roads'')
         \<and> to_string (Str ''id'') = to_string (Str ''name'')
         \<and> to_string (Str ''4:2'') = to_string (Num 7))"
proof -
  have a: "CHR '':'' \<notin> set (to_string (Str ''parcels''))"
    and b: "CHR '':'' \<notin> set (to_string (Str ''id''))"
    and c: "CHR '':'' \<notin> set (to_string (Str ''roads''))"
    and d: "CHR '':'' \<notin> set (to_string (Str ''name''))"
    by simp_all
  from cache_key_injective_without_colon [OF a b c d, of "Str ''4:2''" "Num 7"] a b c d
  show ?thesis by (intro conjI)
qed

text \<open>
  The claim itself fails in two ways. The triples \<open>(a:b, c, d)\<close> and \<open>(a, b:c, d)\<close> differ
  and have the same key. So do the number \<open>42\<close> and the string \<open>42\<close> as values, and
  \<^verbatim>\<open>null\<close> and the string \<open>null\<close>. After \<^verbatim>\<open>get\<close> for the value \<open>42\<close> as a number, \<^verbatim>\<open>get\<close> for
  the string finds the key pending and dispatches nothing; once the fetch has completed,
  \<^verbatim>\<open>get\<close> for the string returns the feature fetched for the number.
\<close>

theorem cache_key_aliases_distinct_triples:
  "cache_key (Str ''a:b'') (Str ''c'') (Str ''d'') = cache_key (Str ''a'') (Str ''b:c'') (Str ''d'')
   \<and> (Str ''a:b'', Str ''c'', Str ''d'') \<noteq> (Str ''a'', Str ''b:c'', Str ''d'')
   \<and> cache_key (Str ''parcels'') (Str ''id'') (Num 42) = cache_key (Str ''parcels'') (Str ''id'') (Str ''42'')
   \<and> Num 42 \<noteq> Str ''42''
   \<and> cache_key (Str ''parcels'') (Str ''id'') NullArg = cache_key (Str ''parcels'') (Str ''id'') (Str ''null'')
   \<and> NullArg \<noteq> Str ''null''
   \<and> get (Str ''parcels'') ''EPSG:3857'' (Str ''id'') (Str ''42'') []
        (step (Get (Str ''parcels'') ''EPSG:3857'' (Str ''id'') (Num 42)) (init_world :: nat world))
      = (None, [], step (Get (Str ''parcels'') ''EPSG:3857'' (Str ''id'') (Num 42)) init_world)
   \<and> get (Str ''parcels'') ''EPSG:3857'' (Str ''id'') (Str ''42'') []
        (step (Complete 0 (Response (Some [5])))
          (step (Get (Str ''parcels'') ''EPSG:3857'' (Str ''id'') (Num 42)) (init_world :: nat world)))
      = (Some 5, [],
         step (Complete 0 (Response (Some [5])))
          (step (Get (Str ''parcels'') ''EPSG:3857'' (Str ''id'') (Num 42)) init_world))"
  by (simp add: get_def on_result_def init_world_def cache_key_def call_key_def decimal.simps)

section \<open>Completions that arrive after a clear\<close>

text \<open>
  The guard \<^verbatim>\<open>if (this.requests.has(key))\<close> of the callback: when the key of the fetch is
  not in the pending set, the callback writes nothing and only resolves its promise.
\<close>

lemma completion_of_key_not_pending:
  assumes "i < length (fetches w)" and "call_key (fetches w ! i) \<notin> requests w"
  shows "on_result i result w = w\<lparr>accepted := insert i (accepted w)\<rparr>"
  using assms by (simp add: on_result_def Let_def)


section \<open>Facts about one parse\<close>

lemma get_store: "store (snd (snd (get d c a v ps w))) = store w"
  by (simp add: get_def Let_def split: option.splits)

lemma get_requests_mono: "requests w \<subseteq> requests (snd (snd (get d c a v ps w)))"
  by (auto simp: get_def Let_def split: option.splits)

lemma get_warnings: "warnings (snd (snd (get d c a v ps w))) = warnings w"
  by (simp add: get_def Let_def split: option.splits)

lemma feed_store: "store (snd (snd (feed r mp crs ps w))) = store w"
proof (induction r arbitrary: ps w)
  case (GetFeature l a v k)
  obtain e ps' w' where g: "get (Str (mp @ to_string l)) crs a v ps w = (e, ps', w')"
    by (cases "get (Str (mp @ to_string l)) crs a v ps w") auto
  have "store w' = store w"
    using get_store [of "Str (mp @ to_string l)" crs a v ps w] g by simp
  moreover have "store (snd (snd (feed (k e) mp crs ps' w'))) = store w'"
    by (rule GetFeature.IH) simp
  ultimately show ?case using g by simp
qed simp_all

lemma feed_requests_mono: "requests w \<subseteq> requests (snd (snd (feed r mp crs ps w)))"
proof (induction r arbitrary: ps w)
  case (GetFeature l a v k)
  obtain e ps' w' where g: "get (Str (mp @ to_string l)) crs a v ps w = (e, ps', w')"
    by (cases "get (Str (mp @ to_string l)) crs a v ps w") auto
  have "requests w \<subseteq> requests w'"
    using get_requests_mono [of w "Str (mp @ to_string l)" crs a v ps] g by simp
  moreover have "requests w' \<subseteq> requests (snd (snd (feed (k e) mp crs ps' w')))"
    by (rule GetFeature.IH) simp
  ultimately show ?case using g by auto
qed simp_all

lemma feed_warnings: "warnings (snd (snd (feed r mp crs ps w))) = warnings w"
proof (induction r arbitrary: ps w)
  case (GetFeature l a v k)
  obtain e ps' w' where g: "get (Str (mp @ to_string l)) crs a v ps w = (e, ps', w')"
    by (cases "get (Str (mp @ to_string l)) crs a v ps w") auto
  have "warnings w' = warnings w"
    using get_warnings [of "Str (mp @ to_string l)" crs a v ps w] g by simp
  moreover have "warnings (snd (snd (feed (k e) mp crs ps' w'))) = warnings w'"
    by (rule GetFeature.IH) simp
  ultimately show ?case using g by simp
qed simp_all

text \<open>
  A parse acts on the cache only through \<^verbatim>\<open>get\<close>: the store and the pending set it leaves
  are those left by a sequence of \<open>Get\<close> events, so what is proved about sequences of
  events holds for any number of evaluation rounds interleaved with fetch callbacks.
\<close>

lemma get_ignores_promises:
  "snd (snd (get d c a v ps w)) = snd (snd (get d c a v [] w))"
  by (simp add: get_def Let_def split: option.splits)

lemma feed_is_gets:
  "\<exists>es. (\<forall>e\<in>set es. \<exists>d c a v. e = Get d c a v)
    \<and> snd (snd (feed r mp crs ps w)) = run_events es w"
proof (induction r arbitrary: ps w)
  case (Done x)
  have "(\<forall>e\<in>set ([] :: 'a event list). \<exists>d c a v. e = Get d c a v)
      \<and> snd (snd (feed (Done x) mp crs ps w)) = run_events [] w"
    by simp
  then show ?case by blast
next
  case Throw
  have "(\<forall>e\<in>set ([] :: 'a event list). \<exists>d c a v. e = Get d c a v)
      \<and> snd (snd (feed Throw mp crs ps w)) = run_events [] w"
    by simp
  then show ?case by blast
next
  case (GetFeature l a v k)
  obtain e ps' w' where g: "get (Str (mp @ to_string l)) crs a v ps w = (e, ps', w')"
    by (cases "get (Str (mp @ to_string l)) crs a v ps w") auto
  have w': "w' = step (Get (Str (mp @ to_string l)) crs a v) w"
    using get_ignores_promises [of "Str (mp @ to_string l)" crs a v ps w] g by simp
  have "\<exists>es. (\<forall>e\<in>set es. \<exists>d c a v. e = Get d c a v)
      \<and> snd (snd (feed (k e) mp crs ps' w')) = run_events es w'"
    by (rule GetFeature.IH) simp
  then obtain es where es: "\<forall>e\<in>set es. \<exists>d c a v. e = Get d c a v"
    and r: "snd (snd (feed (k e) mp crs ps' w')) = run_events es w'"
    by blast
  have "(\<forall>e\<in>set (Get (Str (mp @ to_string l)) crs a v # es). \<exists>d c a v. e = Get d c a v)
      \<and> snd (snd (feed (GetFeature l a v k) mp crs ps w)) = run_events (Get (Str (mp @ to_string l)) crs a v # es) w"
    using es r g w' by simp
  then show ?case by blast
qed

text \<open>
  A parse made again in a state that has the same store and already holds, as pending,
  every key the first one requested gets the same answers from \<^verbatim>\<open>get\<close>, so it ends the same
  way; it pushes no promise and changes nothing.
\<close>

lemma feed_second_pass:
  assumes "store t = store s"
    and "requests (snd (snd (feed r mp crs ps s))) \<subseteq> requests t"
  shows "feed r mp crs qs t = (fst (feed r mp crs ps s), qs, t)"
  using assms
proof (induction r arbitrary: ps s)
  case (GetFeature l a v k)
  let ?key = "cache_key (Str (mp @ to_string l)) a v"
  obtain e ps' s' where g: "get (Str (mp @ to_string l)) crs a v ps s = (e, ps', s')"
    by (cases "get (Str (mp @ to_string l)) crs a v ps s") auto
  have st: "store s' = store s"
    using get_store [of "Str (mp @ to_string l)" crs a v ps s] g by simp
  have fin: "requests (snd (snd (feed (k e) mp crs ps' s'))) \<subseteq> requests t"
    using GetFeature.prems(2) g by simp
  have sub: "requests s' \<subseteq> requests t"
    using feed_requests_mono [of s' "k e" mp crs ps'] fin by blast
  have gt: "get (Str (mp @ to_string l)) crs a v qs t = (e, qs, t)"
  proof (cases "store s ?key")
    case (Some entry)
    then show ?thesis
      using g GetFeature.prems(1) by (simp add: get_def)
  next
    case None
    then have "e = None" and "?key \<in> requests s'"
      using g by (auto simp: get_def Let_def split: if_splits)
    with sub None show ?thesis
      using GetFeature.prems(1) by (auto simp: get_def)
  qed
  have "feed (k e) mp crs qs t = (fst (feed (k e) mp crs ps' s'), qs, t)"
    by (rule GetFeature.IH) (simp_all add: GetFeature.prems(1) st fin)
  then show ?case using g gt by simp
qed simp_all

section \<open>Facts about a batch pass\<close>

lemma reduce_step_store:
  "store (snd (snd (reduce_step G f mp crs af (res, ps, w) entry))) = store w"
proof -
  obtain key expr where e: "entry = (key, expr)" by (cases entry)
  obtain out ps' w' where fd: "feed (G (replace_newline expr) f af) mp crs ps w = (out, ps', w')"
    by (cases "feed (G (replace_newline expr) f af) mp crs ps w") auto
  have "store w' = store w"
    using feed_store [of "G (replace_newline expr) f af" mp crs ps w] fd by simp
  then show ?thesis
    using e fd by (cases out) (simp_all add: reduce_step_def warn_failed_def)
qed

lemma reduce_step_requests:
  "requests w \<subseteq> requests (snd (snd (reduce_step G f mp crs af (res, ps, w) entry)))"
proof -
  obtain key expr where e: "entry = (key, expr)" by (cases entry)
  obtain out ps' w' where fd: "feed (G (replace_newline expr) f af) mp crs ps w = (out, ps', w')"
    by (cases "feed (G (replace_newline expr) f af) mp crs ps w") auto
  have "requests w \<subseteq> requests w'"
    using feed_requests_mono [of w "G (replace_newline expr) f af" mp crs ps] fd by simp
  then show ?thesis
    using e fd by (cases out) (simp_all add: reduce_step_def warn_failed_def)
qed

lemma foldl_reduce_store:
  "store (snd (snd (foldl (reduce_step G f mp crs af) (res, ps, w) es))) = store w"
proof (induction es arbitrary: res ps w)
  case Nil
  then show ?case by simp
next
  case (Cons entry es)
  obtain res' ps' w' where r: "reduce_step G f mp crs af (res, ps, w) entry = (res', ps', w')"
    by (cases "reduce_step G f mp crs af (res, ps, w) entry") auto
  have "store w' = store w"
    using reduce_step_store [of G f mp crs af res ps w entry] r by simp
  with Cons.IH [where res = res' and ps = ps' and w = w'] r show ?case by simp
qed

lemma foldl_reduce_requests:
  "requests w \<subseteq> requests (snd (snd (foldl (reduce_step G f mp crs af) (res, ps, w) es)))"
proof (induction es arbitrary: res ps w)
  case Nil
  then show ?case by simp
next
  case (Cons entry es)
  obtain res' ps' w' where r: "reduce_step G f mp crs af (res, ps, w) entry = (res', ps', w')"
    by (cases "reduce_step G f mp crs af (res, ps, w) entry") auto
  have "requests w \<subseteq> requests w'"
    using reduce_step_requests [of w G f mp crs af res ps entry] r by simp
  with Cons.IH [where res = res' and ps = ps' and w = w'] r show ?case by auto
qed

lemma reduce_step_second_pass:
  assumes "store t = store s"
    and "requests (snd (snd (reduce_step G f mp crs af (res, ps, s) entry))) \<subseteq> requests t"
  shows "\<exists>t'. reduce_step G f mp crs af (res', qs, t) entry
        = (fst (reduce_step G f mp crs af (res', ps, s) entry), qs, t')
      \<and> store t' = store t \<and> requests t' = requests t"
proof -
  obtain key expr where e: "entry = (key, expr)" by (cases entry)
  let ?r = "G (replace_newline expr) f af"
  obtain out ps' s' where fd: "feed ?r mp crs ps s = (out, ps', s')"
    by (cases "feed ?r mp crs ps s") auto
  have "requests s' \<subseteq> requests t"
    using assms(2) e fd by (cases out) (simp_all add: reduce_step_def warn_failed_def)
  then have "feed ?r mp crs qs t = (out, qs, t)"
    using feed_second_pass [OF assms(1), of ?r mp crs ps qs] fd by simp
  then show ?thesis
    using e fd by (cases out) (simp_all add: reduce_step_def warn_failed_def)
qed

lemma foldl_reduce_second_pass:
  assumes "store t = store s"
    and "requests (snd (snd (foldl (reduce_step G f mp crs af) (res, ps, s) es))) \<subseteq> requests t"
  shows "\<exists>res'' t'. foldl (reduce_step G f mp crs af) (res', qs, t) es = (res'', qs, t')
      \<and> store t' = store t \<and> requests t' = requests t"
  using assms
proof (induction es arbitrary: res ps s res' t)
  case Nil
  then show ?case by simp
next
  case (Cons entry es)
  obtain res1 ps1 s1 where r: "reduce_step G f mp crs af (res, ps, s) entry = (res1, ps1, s1)"
    by (cases "reduce_step G f mp crs af (res, ps, s) entry") auto
  have fin: "requests (snd (snd (foldl (reduce_step G f mp crs af) (res1, ps1, s1) es))) \<subseteq> requests t"
    using Cons.prems(2) r by simp
  have "requests s1 \<subseteq> requests t"
    using foldl_reduce_requests [of s1 G f mp crs af res1 ps1 es] fin by blast
  then have "requests (snd (snd (reduce_step G f mp crs af (res, ps, s) entry))) \<subseteq> requests t"
    using r by simp
  from reduce_step_second_pass [OF Cons.prems(1) this, of res' qs]
  obtain t1 where
    t1: "reduce_step G f mp crs af (res', qs, t) entry
          = (fst (reduce_step G f mp crs af (res', ps, s) entry), qs, t1)"
    and st: "store t1 = store t" and rq: "requests t1 = requests t"
    by blast
  have "store s1 = store s"
    using reduce_step_store [of G f mp crs af res ps s entry] r by simp
  with st Cons.prems(1) have "store t1 = store s1" by simp
  moreover have "requests (snd (snd (foldl (reduce_step G f mp crs af) (res1, ps1, s1) es)))
      \<subseteq> requests t1"
    using fin rq by simp
  ultimately obtain res'' t' where
    "foldl (reduce_step G f mp crs af)
       (fst (reduce_step G f mp crs af (res', ps, s) entry), qs, t1) es = (res'', qs, t')"
    and "store t' = store t1" and "requests t' = requests t1"
    using Cons.IH [where t = t1 and s = s1 and res = res1 and ps = ps1] by blast
  then show ?case using t1 st rq by simp
qed

lemma second_pass_awaits_nothing:
  assumes "batch_pass G es f mp crs af [] w = (results, promises, w1)"
  shows "\<exists>res'' t'. batch_pass G es f mp crs af [] w1 = (res'', [], t')"
proof -
  have "store w1 = store w"
    using foldl_reduce_store [of G f mp crs af Map.empty "[]" w es] assms
    by (simp add: batch_pass_def)
  moreover have "requests (snd (snd (foldl (reduce_step G f mp crs af) (Map.empty, [], w) es)))
      \<subseteq> requests w1"
    using assms by (simp add: batch_pass_def)
  ultimately show ?thesis
    using foldl_reduce_second_pass [of w1 w G f mp crs af Map.empty "[]" es Map.empty "[]"]
    by (auto simp: batch_pass_def)
qed

text \<open>
  \<^verbatim>\<open>parseExpressionsAsync\<close> returns: the pass made by the recursive call finds every key of
  the first pass pending or stored, so its promise list is empty. The mapping it resolves
  its promise with is the one of its own, first, pass.
\<close>

lemma parseExpressionsAsync_first_pass:
  "\<exists>w'. parseExpressionsAsync G es f mp crs af w
      = Some (fst (batch_pass G es f mp crs af [] w), w')"
proof -
  obtain results promises w1 where p1: "batch_pass G es f mp crs af [] w = (results, promises, w1)"
    by (cases "batch_pass G es f mp crs af [] w") auto
  show ?thesis
  proof (cases "promises = []")
    case True
    then show ?thesis
      using p1 by (subst parseExpressionsAsync.simps) simp
  next
    case False
    obtain res2 t2 where p2: "batch_pass G es f mp crs af [] w1 = (res2, [], t2)"
      using second_pass_awaits_nothing [OF p1] by blast
    have "parseExpressionsAsync G es f mp crs af w1 = Some (res2, t2)"
      using p2 by (subst parseExpressionsAsync.simps) simp
    then show ?thesis
      using p1 False by (subst parseExpressionsAsync.simps) simp
  qed
qed

lemma reduce_step_other:
  "key \<noteq> fst entry \<Longrightarrow>
    fst (reduce_step G f mp crs af (res, ps, w) entry) key = res key"
  by (auto simp: reduce_step_def split: prod.splits outcome.splits)

lemma foldl_reduce_other:
  "key \<notin> fst ` set es \<Longrightarrow>
    fst (foldl (reduce_step G f mp crs af) (res, ps, w) es) key = res key"
proof (induction es arbitrary: res ps w)
  case Nil
  then show ?case by simp
next
  case (Cons entry es)
  obtain res' ps' w' where r: "reduce_step G f mp crs af (res, ps, w) entry = (res', ps', w')"
    by (cases "reduce_step G f mp crs af (res, ps, w) entry") auto
  from Cons.prems have "key \<noteq> fst entry" and rest: "key \<notin> fst ` set es" by auto
  then have "res' key = res key"
    using reduce_step_other [of key entry G f mp crs af res ps w] r by simp
  with Cons.IH [OF rest, where res = res' and ps = ps' and w = w'] r show ?case by simp
qed

lemma batch_pass_entry:
  assumes "distinct (map fst (before @ (name, expr) # after))"
  shows "fst (batch_pass G (before @ (name, expr) # after) f mp crs af [] w) name
    = (case entry_outcome G before expr f mp crs af w of Returned v \<Rightarrow> Some v | Raised \<Rightarrow> None)"
proof -
  obtain res1 ps1 w1 where b: "batch_pass G before f mp crs af [] w = (res1, ps1, w1)"
    by (cases "batch_pass G before f mp crs af [] w") auto
  from assms have nb: "name \<notin> fst ` set before" and na: "name \<notin> fst ` set after"
    by auto
  have "res1 name = None"
    using foldl_reduce_other [OF nb, of G f mp crs af Map.empty "[]" w] b
    by (simp add: batch_pass_def)
  obtain res2 ps2 w2 where s: "reduce_step G f mp crs af (res1, ps1, w1) (name, expr) = (res2, ps2, w2)"
    by (cases "reduce_step G f mp crs af (res1, ps1, w1) (name, expr)") auto
  have mid: "res2 name
      = (case fst (feed (G (replace_newline expr) f af) mp crs ps1 w1) of
           Returned v \<Rightarrow> Some v | Raised \<Rightarrow> None)"
    using s \<open>res1 name = None\<close>
    by (auto simp: reduce_step_def split: prod.splits outcome.splits)
  have "fst (batch_pass G (before @ (name, expr) # after) f mp crs af [] w) name
      = fst (foldl (reduce_step G f mp crs af) (res2, ps2, w2) after) name"
    using b s by (simp add: batch_pass_def)
  also have "\<dots> = res2 name"
    by (rule foldl_reduce_other [OF na])
  finally show ?thesis
    using mid b by (simp add: entry_outcome_def)
qed

lemmas eval_defs =
  sample_grammar_def parseExpression_def batch_pass_def reduce_step_def warn_failed_def
  get_def on_result_def init_world_def cache_key_def call_key_def Let_def

section \<open>What the batch evaluator resolves with\<close>

text \<open>
  C2, evaluated on the code. The batch \<^verbatim>\<open>{x: "1+1", y: <lookup of a parcel>}\<close> on an empty
  cache: the promise is resolved with \<^verbatim>\<open>{x: 2, y: null}\<close>, the mapping of the first pass,
  while the fetch is still outstanding (no promise accepted, the key pending, the store
  empty). The same call made once the fetch has come back with the parcel \<open>150\<close> gives
  \<^verbatim>\<open>{x: 2, y: 150}\<close>, which is the mapping the claim expects from the first call.
\<close>

theorem batch_resolves_with_provisional_mapping:
  "parseExpressionsAsync sample_grammar
      [(''x'', ''1+1''), (''y'', ''getFeature(parcels,id,42)'')] 0 '''' ''EPSG:3857'' False init_world
    = Some ([''x'' \<mapsto> Some 2, ''y'' \<mapsto> None],
        \<lparr>store = Map.empty, requests = {''parcels:id:42''},
         fetches = [\<lparr>fc_dataset = Str ''parcels'', fc_crs = ''EPSG:3857'', fc_attr = Str ''id'',
                     fc_value = Str ''42''\<rparr>],
         accepted = {}, warnings = []\<rparr>)
   \<and> parseExpressionsAsync sample_grammar
      [(''x'', ''1+1''), (''y'', ''getFeature(parcels,id,42)'')] 0 '''' ''EPSG:3857'' False
      (on_result 0 (Response (Some [150]))
        \<lparr>store = Map.empty, requests = {''parcels:id:42''},
         fetches = [\<lparr>fc_dataset = Str ''parcels'', fc_crs = ''EPSG:3857'', fc_attr = Str ''id'',
                     fc_value = Str ''42''\<rparr>],
         accepted = {}, warnings = []\<rparr>)
    = Some ([''x'' \<mapsto> Some 2, ''y'' \<mapsto> Some 150],
        \<lparr>store = [''parcels:id:42'' \<mapsto> Some 150], requests = {},
         fetches = [\<lparr>fc_dataset = Str ''parcels'', fc_crs = ''EPSG:3857'', fc_attr = Str ''id'',
                     fc_value = Str ''42''\<rparr>],
         accepted = {0}, warnings = []\<rparr>)"
proof (rule conjI)
  show "parseExpressionsAsync sample_grammar
      [(''x'', ''1+1''), (''y'', ''getFeature(parcels,id,42)'')] 0 '''' ''EPSG:3857'' False init_world
    = Some ([''x'' \<mapsto> Some 2, ''y'' \<mapsto> None],
        \<lparr>store = Map.empty, requests = {''parcels:id:42''},
         fetches = [\<lparr>fc_dataset = Str ''parcels'', fc_crs = ''EPSG:3857'', fc_attr = Str ''id'',
                     fc_value = Str ''42''\<rparr>],
         accepted = {}, warnings = []\<rparr>)"
    apply (subst parseExpressionsAsync.simps)
    apply (simp add: eval_defs)
    apply (subst parseExpressionsAsync.simps)
    apply (simp add: eval_defs)
    done
next
  show "parseExpressionsAsync sample_grammar
      [(''x'', ''1+1''), (''y'', ''getFeature(parcels,id,42)'')] 0 '''' ''EPSG:3857'' False
      (on_result 0 (Response (Some [150]))
        \<lparr>store = Map.empty, requests = {''parcels:id:42''},
         fetches = [\<lparr>fc_dataset = Str ''parcels'', fc_crs = ''EPSG:3857'', fc_attr = Str ''id'',
                     fc_value = Str ''42''\<rparr>],
         accepted = {}, warnings = []\<rparr>)
    = Some ([''x'' \<mapsto> Some 2, ''y'' \<mapsto> Some 150],
        \<lparr>store = [''parcels:id:42'' \<mapsto> Some 150], requests = {},
         fetches = [\<lparr>fc_dataset = Str ''parcels'', fc_crs = ''EPSG:3857'', fc_attr = Str ''id'',
                     fc_value = Str ''42''\<rparr>],
         accepted = {0}, warnings = []\<rparr>)"
    apply (subst parseExpressionsAsync.simps)
    apply (simp add: eval_defs)
    done
qed

section \<open>Failing parses\<close>

text \<open>
  C5, as the code has it. When \<^verbatim>\<open>parser.feed\<close> raises, \<^verbatim>\<open>parseExpression\<close> logs the
  diagnostic and returns \<^verbatim>\<open>null\<close> (in filter mode, when the round awaits nothing, the list
  \<^verbatim>\<open>[null]\<close>); it awaits exactly the promises pushed before the exception, so a further round
  is scheduled if and only if the failing parse had dispatched a fetch. In a batch, the
  promise is resolved with a mapping that has no entry for a name whose parse raised and
  has the parser's result for a name whose parse returned.
\<close>

theorem failure_is_logged_and_retried_only_with_pending_fetches:
  "(fst (feed (G (replace_newline expr) feature asFilter) mapPrefix mapCrs [] w) = Raised \<longrightarrow>
      returned (fst (parseExpression G expr feature mapPrefix mapCrs asFilter reevaluate w))
        = (if asFilter \<and> fst (snd (feed (G (replace_newline expr) feature asFilter) mapPrefix mapCrs [] w)) = []
           then Singleton Null else Null)
      \<and> awaited (fst (parseExpression G expr feature mapPrefix mapCrs asFilter reevaluate w))
        = fst (snd (feed (G (replace_newline expr) feature asFilter) mapPrefix mapCrs [] w))
      \<and> warnings (snd (parseExpression G expr feature mapPrefix mapCrs asFilter reevaluate w))
        = warnings w @ [''Failed to evaluate expression '' @ replace_newline expr])
   \<and> (distinct (map fst (before @ (name, expr) # after)) \<longrightarrow>
      (\<exists>m w'. parseExpressionsAsync G (before @ (name, expr) # after) feature mapPrefix mapCrs asFilter w
            = Some (m, w')
         \<and> m name = (case entry_outcome G before expr feature mapPrefix mapCrs asFilter w of
                       Returned v \<Rightarrow> Some v | Raised \<Rightarrow> None)))"
proof (intro conjI impI)
  let ?run = "G (replace_newline expr) feature asFilter"
  assume raised: "fst (feed ?run mapPrefix mapCrs [] w) = Raised"
  obtain ps w1 where fd: "feed ?run mapPrefix mapCrs [] w = (Raised, ps, w1)"
    using raised by (cases "feed ?run mapPrefix mapCrs [] w") auto
  have ww: "warnings w1 = warnings w"
    using feed_warnings [of ?run mapPrefix mapCrs "[]" w] fd by simp
  show "returned (fst (parseExpression G expr feature mapPrefix mapCrs asFilter reevaluate w))
      = (if asFilter \<and> fst (snd (feed ?run mapPrefix mapCrs [] w)) = [] then Singleton Null else Null)"
    using fd by (simp add: parseExpression_def)
  show "awaited (fst (parseExpression G expr feature mapPrefix mapCrs asFilter reevaluate w))
      = fst (snd (feed ?run mapPrefix mapCrs [] w))"
    using fd by (simp add: parseExpression_def)
  show "warnings (snd (parseExpression G expr feature mapPrefix mapCrs asFilter reevaluate w))
      = warnings w @ [''Failed to evaluate expression '' @ replace_newline expr]"
    using fd ww by (simp add: parseExpression_def warn_failed_def)
next
  assume d: "distinct (map fst (before @ (name, expr) # after))"
  obtain w' where "parseExpressionsAsync G (before @ (name, expr) # after) feature mapPrefix mapCrs asFilter w
      = Some (fst (batch_pass G (before @ (name, expr) # after) feature mapPrefix mapCrs asFilter [] w), w')"
    using parseExpressionsAsync_first_pass
      [of G "before @ (name, expr) # after" feature mapPrefix mapCrs asFilter w]
    by blast
  then show "\<exists>m w'. parseExpressionsAsync G (before @ (name, expr) # after) feature mapPrefix mapCrs asFilter w
            = Some (m, w')
         \<and> m name = (case entry_outcome G before expr feature mapPrefix mapCrs asFilter w of
                       Returned v \<Rightarrow> Some v | Raised \<Rightarrow> None)"
    using batch_pass_entry [OF d, of G feature mapPrefix mapCrs asFilter w] by simp
qed

theorem parse_failure_witness:
  "fst (feed (sample_grammar (replace_newline ''{a +'') 0 False) '''' ''EPSG:3857'' [] init_world) = Raised
   \<and> distinct (map fst ([(''x'', ''1+1'')] @ (''bad'', ''{a +'') # []))
   \<and> returned (fst (parseExpression sample_grammar ''{a +'' 0 '''' ''EPSG:3857'' False False init_world)) = Null
   \<and> awaited (fst (parseExpression sample_grammar ''{a +'' 0 '''' ''EPSG:3857'' False False init_world)) = []
   \<and> warnings (snd (parseExpression sample_grammar ''{a +'' 0 '''' ''EPSG:3857'' False False init_world))
       = [''Failed to evaluate expression {a +'']
   \<and> (\<exists>m w'. parseExpressionsAsync sample_grammar ([(''x'', ''1+1'')] @ (''bad'', ''{a +'') # [])
          0 '''' ''EPSG:3857'' False init_world = Some (m, w')
        \<and> m ''bad'' = None)"
proof -
  let ?G = sample_grammar
  have a: "fst (feed (?G (replace_newline ''{a +'') 0 False) '''' ''EPSG:3857'' [] init_world) = Raised"
    by (simp add: sample_grammar_def)
  have b: "distinct (map fst ([(''x'', ''1+1'')] @ (''bad'', ''{a +'') # []))"
    by simp
  have ps: "fst (snd (feed (?G (replace_newline ''{a +'') 0 False) '''' ''EPSG:3857'' [] init_world)) = []"
    by (simp add: sample_grammar_def)
  have o: "entry_outcome ?G [(''x'', ''1+1'')] ''{a +'' 0 '''' ''EPSG:3857'' False init_world = Raised"
    by (simp add: entry_outcome_def eval_defs)
  note t = failure_is_logged_and_retried_only_with_pending_fetches
    [of ?G "''{a +''" 0 False "''''" "''EPSG:3857''" init_world False
      "[(''x'', ''1+1'')]" "''bad''" "[]"]
  from t a ps have c: "returned (fst (parseExpression ?G ''{a +'' 0 '''' ''EPSG:3857'' False False init_world)) = Null"
    by simp
  from t a ps have d: "awaited (fst (parseExpression ?G ''{a +'' 0 '''' ''EPSG:3857'' False False init_world)) = []"
    by simp
  from t a have e: "warnings (snd (parseExpression ?G ''{a +'' 0 '''' ''EPSG:3857'' False False init_world))
       = [''Failed to evaluate expression {a +'']"
    by (simp add: init_world_def)
  from t b o have f: "\<exists>m w'. parseExpressionsAsync ?G ([(''x'', ''1+1'')] @ (''bad'', ''{a +'') # [])
          0 '''' ''EPSG:3857'' False init_world = Some (m, w') \<and> m ''bad'' = None"
    by simp
  from a b c d e f show ?thesis by (intro conjI)
qed

text \<open>
  A parse that raises after a lookup: the round awaits the promise of the fetch, and when
  the fetch has completed a second round runs, fails again and calls
  \<^verbatim>\<open>reevaluateCallback\<close>.
\<close>

theorem failing_round_with_fetch_is_retried:
  "fst (feed (sample_grammar (replace_newline ''getFeature(parcels,id,42) )'') 0 False)
      '''' ''EPSG:3857'' [] init_world) = Raised
   \<and> awaited (fst (parseExpression sample_grammar ''getFeature(parcels,id,42) )'' 0 '''' ''EPSG:3857''
        False False init_world)) = [0]
   \<and> parseExpression_rounds sample_grammar ''getFeature(parcels,id,42) )'' 0 '''' ''EPSG:3857''
        False False [[Complete 0 (Response (Some [150]))]] init_world
     = [\<lparr>returned = Null, callback_invoked = False, awaited = [0]\<rparr>,
        \<lparr>returned = Null, callback_invoked = True, awaited = []\<rparr>]"
  by (simp add: eval_defs)

section \<open>The re-evaluation callback\<close>





section \<open>Newlines in the expression text\<close>

lemma replace_newline_first:
  "CHR 0x0A \<notin> set pre \<Longrightarrow> replace_newline (pre @ CHR 0x0A # post) = pre @ CHR '' '' # post"
  by (induction pre) auto

lemma replace_newline_none: "CHR 0x0A \<notin> set cs \<Longrightarrow> replace_newline cs = cs"
  by (induction cs) auto

text \<open>
  C9. Only the first line feed of the expression text becomes a space: the text up to
  it and the text after it, with any further line feeds, are handed to the parser as they
  are, by \<^verbatim>\<open>parseExpression\<close> and by \<^verbatim>\<open>parseExpressionsAsync\<close> alike (shown with the
  grammar that returns the text it is fed). A text with no line feed is not changed.
\<close>

theorem only_first_newline_replaced:
  assumes "CHR 0x0A \<notin> set pre"
  shows "replace_newline (pre @ CHR 0x0A # post) = pre @ CHR '' '' # post
    \<and> replace_newline pre = pre
    \<and> returned (fst (parseExpression echo (pre @ CHR 0x0A # post) feature mapPrefix mapCrs False
          reevaluate w)) = Value (pre @ CHR '' '' # post)
    \<and> (\<exists>w'. parseExpressionsAsync echo [(name, pre @ CHR 0x0A # post)] feature mapPrefix mapCrs
          asFilter w = Some ([name \<mapsto> pre @ CHR '' '' # post], w'))"
proof -
  note first = replace_newline_first [OF assms, of post]
  have "returned (fst (parseExpression echo (pre @ CHR 0x0A # post) feature mapPrefix mapCrs False
          reevaluate w)) = Value (pre @ CHR '' '' # post)"
    by (simp add: parseExpression_def echo_def first)
  moreover have "fst (batch_pass echo [(name, pre @ CHR 0x0A # post)] feature mapPrefix mapCrs asFilter [] w)
      = [name \<mapsto> pre @ CHR '' '' # post]"
    by (simp add: batch_pass_def reduce_step_def echo_def first)
  then have "\<exists>w'. parseExpressionsAsync echo [(name, pre @ CHR 0x0A # post)] feature mapPrefix mapCrs
          asFilter w = Some ([name \<mapsto> pre @ CHR '' '' # post], w')"
    using parseExpressionsAsync_first_pass
      [of echo "[(name, pre @ CHR 0x0A # post)]" feature mapPrefix mapCrs asFilter w]
    by simp
  ultimately show ?thesis
    using first replace_newline_none [OF assms] by blast
qed

theorem only_first_newline_replaced_witness:
  "CHR 0x0A \<notin> set ''a''
   \<and> replace_newline (''a'' @ CHR 0x0A # (''b'' @ CHR 0x0A # ''c'')) = ''a'' @ CHR '' '' # (''b'' @ CHR 0x0A # ''c'')
   \<and> returned (fst (parseExpression echo (''a'' @ CHR 0x0A # (''b'' @ CHR 0x0A # ''c'')) (0::nat) ''''
        ''EPSG:3857'' False False init_world))
      = Value (''a'' @ CHR '' '' # (''b'' @ CHR 0x0A # ''c''))"
proof -
  have a: "CHR 0x0A \<notin> set ''a''" by simp
  note t = only_first_newline_replaced
    [OF a, of "''b'' @ CHR 0x0A # ''c''" "0::nat" "''''" "''EPSG:3857''" False init_world]
  from t have b: "replace_newline (''a'' @ CHR 0x0A # (''b'' @ CHR 0x0A # ''c''))
      = ''a'' @ CHR '' '' # (''b'' @ CHR 0x0A # ''c'')"
    by (rule conjunct1)
  from t have c: "returned (fst (parseExpression echo (''a'' @ CHR 0x0A # (''b'' @ CHR 0x0A # ''c'')) (0::nat) ''''
        ''EPSG:3857'' False False init_world))
      = Value (''a'' @ CHR '' '' # (''b'' @ CHR 0x0A # ''c''))"
    by (rule conjunct1 [OF conjunct2 [OF conjunct2]])
  from a b c show ?thesis by (intro conjI)
qed

end
